theory Spec2Isabelle
  imports Main "HOL-Library.AList" "HOL-Library.Multiset"
begin

section \<open>Python strings and values\<close>

text \<open>
  A Python \<open>str\<close> is a sequence of Unicode code points; it is modelled as a list of
  natural numbers, one per code point. \<open>ustr\<close> embeds an ASCII literal of the source.
\<close>

type_synonym pystr = "nat list"

definition ustr :: "string \<Rightarrow> pystr" where
  "ustr s = map of_char s"

text \<open>
  \<open>str.isspace\<close> for one code point: the ASCII controls 0x09-0x0D and 0x1C-0x1F, the
  space, and the Unicode separators NEL, NBSP, U+1680, U+2000-U+200A, U+2028, U+2029,
  U+202F, U+205F and U+3000.
\<close>

definition py_isspace :: "nat \<Rightarrow> bool" where
  "py_isspace c =
     ((9 \<le> c \<and> c \<le> 13) \<or> (28 \<le> c \<and> c \<le> 32) \<or> c = 133 \<or> c = 160 \<or> c = 5760 \<or>
      (8192 \<le> c \<and> c \<le> 8202) \<or> c = 8232 \<or> c = 8233 \<or> c = 8239 \<or> c = 8287 \<or> c = 12288)"

text \<open>\<open>s.strip()\<close>: leading and trailing whitespace removed.\<close>

definition py_strip :: "pystr \<Rightarrow> pystr" where
  "py_strip s = rev (dropWhile py_isspace (rev (dropWhile py_isspace s)))"

text \<open>\<open>sep.join(parts)\<close>.\<close>

fun py_join :: "pystr \<Rightarrow> pystr list \<Rightarrow> pystr" where
  "py_join sep [] = []"
| "py_join sep [p] = p"
| "py_join sep (p # q # ps) = p @ sep @ py_join sep (q # ps)"

text \<open>
  The values \<open>json.loads\<close> can return. A float is kept as the literal it was read from
  (the program never computes with one); a dict is kept as its items in insertion order.
\<close>

datatype pyval =
    PNone
  | PBool bool
  | PInt int
  | PFloat pystr
  | PStr pystr
  | PList "pyval list"
  | PDict "(pystr \<times> pyval) list"

datatype exn =
    RuntimeError string
  | JSONDecodeError
  | RecursionError
  | OtherError string

section \<open>The standard library's JSON decoder\<close>

text \<open>
  \<open>json.loads\<close> on a \<open>str\<close>, after \<open>Lib/json/decoder.py\<close> and \<open>Lib/json/scanner.py\<close>:
  the decoder works on the rest of the input instead of an index into it. Its failures
  (\<open>JSONDecodeError\<close>) are the outcome \<open>Fail\<close>; the message and position are dropped,
  since the program catches every exception alike.
\<close>

datatype 'a scan = Ok 'a "nat list" | Fail | OutOfFuel

definition json_ws :: "nat \<Rightarrow> bool" where
  "json_ws c = (c = 32 \<or> c = 9 \<or> c = 10 \<or> c = 13)"

definition skip_ws :: "nat list \<Rightarrow> nat list" where
  "skip_ws s = dropWhile json_ws s"

definition is_digit :: "nat \<Rightarrow> bool" where
  "is_digit c = (48 \<le> c \<and> c \<le> 57)"

definition hexval :: "nat \<Rightarrow> nat option" where
  "hexval c =
     (if 48 \<le> c \<and> c \<le> 57 then Some (c - 48)
      else if 65 \<le> c \<and> c \<le> 70 then Some (c - 55)
      else if 97 \<le> c \<and> c \<le> 102 then Some (c - 87)
      else None)"

text \<open>The value of four hexadecimal digits, if they are such.\<close>

definition hex4 :: "nat \<Rightarrow> nat \<Rightarrow> nat \<Rightarrow> nat \<Rightarrow> nat option" where
  "hex4 a b c d =
     (case (hexval a, hexval b, hexval c, hexval d) of
        (Some w, Some x, Some y, Some z) \<Rightarrow> Some (((w * 16 + x) * 16 + y) * 16 + z)
      | _ \<Rightarrow> None)"

text \<open>The table \<open>BACKSLASH\<close> of one-letter escapes.\<close>

definition backslash :: "nat \<Rightarrow> nat option" where
  "backslash c =
     (if c = 34 then Some 34
      else if c = 92 then Some 92
      else if c = 47 then Some 47
      else if c = 98 then Some 8
      else if c = 102 then Some 12
      else if c = 110 then Some 10
      else if c = 114 then Some 13
      else if c = 116 then Some 9
      else None)"

text \<open>
  \<open>_decode_uXXXX\<close>: the four hexadecimal digits of a \<open>\u\<close> escape, and the rest of the
  input after them.
\<close>

definition decode_uXXXX :: "nat list \<Rightarrow> (nat \<times> nat list) option" where
  "decode_uXXXX s =
     (case s of
        h1 # h2 # h3 # h4 # r \<Rightarrow>
          (case hex4 h1 h2 h3 h4 of None \<Rightarrow> None | Some uni \<Rightarrow> Some (uni, r))
      | _ \<Rightarrow> None)"

text \<open>
  One escape, read after the backslash: a letter of the table, or \<open>uXXXX\<close>; a high
  surrogate followed by a \<open>\u\<close> escape of a low surrogate gives the joined code point.
\<close>

definition scan_escape :: "nat list \<Rightarrow> (nat \<times> nat list) option" where
  "scan_escape s =
     (case s of
        [] \<Rightarrow> None
      | esc # es \<Rightarrow>
          if esc \<noteq> 117 then
            (case backslash esc of None \<Rightarrow> None | Some ch \<Rightarrow> Some (ch, es))
          else
            (case decode_uXXXX es of
               None \<Rightarrow> None
             | Some (uni, r) \<Rightarrow>
                 if 55296 \<le> uni \<and> uni \<le> 56319 \<and> take 2 r = [92, 117] then
                   (case decode_uXXXX (drop 2 r) of
                      None \<Rightarrow> None
                    | Some (uni2, r2) \<Rightarrow>
                        if 56320 \<le> uni2 \<and> uni2 \<le> 57343
                        then Some (65536 + ((uni - 55296) * 1024 + (uni2 - 56320)), r2)
                        else Some (uni, r))
                 else Some (uni, r)))"

lemma decode_uXXXX_length:
  "decode_uXXXX s = Some (v, r) \<Longrightarrow> length s = length r + 4"
  by (auto simp: decode_uXXXX_def split: list.splits option.splits)

lemma scan_escape_shorter:
  assumes "scan_escape s = Some (ch, r)"
  shows "length r < length s"
proof (cases s)
  case Nil
  with assms show ?thesis by (simp add: scan_escape_def)
next
  case (Cons esc es)
  show ?thesis
  proof (cases "esc = 117")
    case False
    with assms Cons show ?thesis
      by (auto simp: scan_escape_def split: option.splits)
  next
    case True
    then obtain uni r1 where d1: "decode_uXXXX es = Some (uni, r1)"
      using assms Cons by (auto simp: scan_escape_def split: option.splits)
    have l1: "length es = length r1 + 4"
      using d1 by (rule decode_uXXXX_length)
    show ?thesis
    proof (cases "55296 \<le> uni \<and> uni \<le> 56319 \<and> take 2 r1 = [92, 117]")
      case False
      with assms Cons True d1 have "r = r1"
        by (auto simp: scan_escape_def)
      with l1 Cons show ?thesis by simp
    next
      case pair: True
      then obtain uni2 r2 where d2: "decode_uXXXX (drop 2 r1) = Some (uni2, r2)"
        using assms Cons True d1 by (auto simp: scan_escape_def split: option.splits)
      have l2: "length (drop 2 r1) = length r2 + 4"
        using d2 by (rule decode_uXXXX_length)
      from assms Cons True d1 pair d2 have "r = r2 \<or> r = r1"
        by (auto simp: scan_escape_def split: if_splits)
      with l1 l2 Cons show ?thesis by auto
    qed
  qed
qed

text \<open>
  \<open>scanstring\<close> (strict mode), called after the opening quote: characters up to the
  closing quote, with escapes decoded. A control character below 0x20, a wrong escape
  or a missing closing quote fails.
\<close>

function scanstring :: "nat list \<Rightarrow> pystr \<Rightarrow> (pystr \<times> nat list) option" where
  "scanstring [] acc = None"
| "scanstring (c # cs) acc =
     (if c = 34 then Some (acc, cs)
      else if c = 92 then
        (case scan_escape cs of
           None \<Rightarrow> None
         | Some (ch, r) \<Rightarrow> scanstring r (acc @ [ch]))
      else if c < 32 then None
      else scanstring cs (acc @ [c]))"
  by pat_completeness auto
termination
  by (relation "measure (\<lambda>(s, acc). length s)") (auto dest: scan_escape_shorter)

text \<open>
  \<open>NUMBER_RE\<close>: \<open>(-?(?:0|[1-9][0-9]*))(\.[0-9]+)?([eE][-+]?[0-9]+)?\<close>, matched at the
  start of the input. With a fraction or an exponent the value is a float, otherwise an
  int.
\<close>

definition digits_value :: "nat list \<Rightarrow> nat" where
  "digits_value ds = foldl (\<lambda>a d. 10 * a + (d - 48)) 0 ds"

definition match_frac :: "nat list \<Rightarrow> pystr \<times> nat list" where
  "match_frac s =
     (case s of
        dot # f \<Rightarrow>
          if dot = 46 \<and> takeWhile is_digit f \<noteq> []
          then (dot # takeWhile is_digit f, dropWhile is_digit f)
          else ([], s)
      | [] \<Rightarrow> ([], s))"

definition match_exp :: "nat list \<Rightarrow> pystr \<times> nat list" where
  "match_exp s =
     (case s of
        e # x \<Rightarrow>
          if e = 101 \<or> e = 69 then
            (let (sign, y) =
               (case x of
                  sg # y \<Rightarrow> if sg = 45 \<or> sg = 43 then ([sg], y) else ([], x)
                | [] \<Rightarrow> ([], x))
             in if takeWhile is_digit y \<noteq> []
                then (e # sign @ takeWhile is_digit y, dropWhile is_digit y)
                else ([], s))
          else ([], s)
      | [] \<Rightarrow> ([], s))"

definition match_integer :: "nat list \<Rightarrow> (pystr \<times> nat list) option" where
  "match_integer s =
     (case s of
        [] \<Rightarrow> None
      | d # ds \<Rightarrow>
          if d = 48 then Some ([d], ds)
          else if 49 \<le> d \<and> d \<le> 57
          then Some (d # takeWhile is_digit ds, dropWhile is_digit ds)
          else None)"

definition match_number :: "nat list \<Rightarrow> (pyval \<times> nat list) option" where
  "match_number s =
     (let (neg, s1) = (case s of c # r \<Rightarrow> if c = 45 then (True, r) else (False, s) | [] \<Rightarrow> (False, s))
      in case match_integer s1 of
           None \<Rightarrow> None
         | Some (integer, r1) \<Rightarrow>
             (let (frac, r2) = match_frac r1;
                  (ex, r3) = match_exp r2
              in if frac \<noteq> [] \<or> ex \<noteq> []
                 then Some (PFloat ((if neg then [45] else []) @ integer @ frac @ ex), r3)
                 else Some (PInt (if neg then - int (digits_value integer)
                                  else int (digits_value integer)), r3)))"

definition starts_with :: "nat list \<Rightarrow> pystr \<Rightarrow> bool" where
  "starts_with s p = (take (length p) s = p)"

text \<open>The literals and the non-finite constants of \<open>scan_once\<close>.\<close>

definition match_constant :: "nat list \<Rightarrow> (pyval \<times> nat list) option" where
  "match_constant s =
     (if starts_with s (ustr ''NaN'') then Some (PFloat (ustr ''NaN''), drop 3 s)
      else if starts_with s (ustr ''Infinity'') then Some (PFloat (ustr ''Infinity''), drop 8 s)
      else if starts_with s (ustr ''-Infinity'') then Some (PFloat (ustr ''-Infinity''), drop 9 s)
      else None)"

text \<open>\<open>dict(pairs)\<close>: a repeated key keeps its first position and takes the last value.\<close>

definition py_dict :: "(pystr \<times> pyval) list \<Rightarrow> (pystr \<times> pyval) list" where
  "py_dict pairs = foldl (\<lambda>d (k, v). AList.update k v d) [] pairs"

text \<open>
  \<open>scan_once\<close>, \<open>JSONArray\<close> and \<open>JSONObject\<close>. The first argument bounds the number of
  nested calls; \<open>json_loads\<close> passes a bound that is never reached
  (lemma \<open>json_loads_no_recursion_error\<close> below), so the interpreter's own recursion limit
  is the only thing left out. \<open>array_items\<close> is the loop of \<open>JSONArray\<close>, entered at
  the first character of an element; \<open>object_members\<close> is the loop of \<open>JSONObject\<close>,
  entered after the opening quote of a key.
\<close>

fun scan_once :: "nat \<Rightarrow> nat list \<Rightarrow> pyval scan"
  and array_items :: "nat \<Rightarrow> nat list \<Rightarrow> pyval list \<Rightarrow> (pyval list) scan"
  and object_members :: "nat \<Rightarrow> nat list \<Rightarrow> (pystr \<times> pyval) list \<Rightarrow> ((pystr \<times> pyval) list) scan"
where
  "scan_once 0 s = OutOfFuel"
| "scan_once (Suc n) [] = Fail"
| "scan_once (Suc n) (c # cs) =
     (if c = 34 then
        (case scanstring cs [] of None \<Rightarrow> Fail | Some (str, r) \<Rightarrow> Ok (PStr str) r)
      else if c = 123 then
        (case skip_ws cs of
           d # r \<Rightarrow>
             if d = 125 then Ok (PDict []) r
             else if d = 34 then
               (case object_members n r [] of
                  Ok pairs r' \<Rightarrow> Ok (PDict (py_dict pairs)) r'
                | Fail \<Rightarrow> Fail
                | OutOfFuel \<Rightarrow> OutOfFuel)
             else Fail
         | [] \<Rightarrow> Fail)
      else if c = 91 then
        (case skip_ws cs of
           d # r \<Rightarrow>
             if d = 93 then Ok (PList []) r
             else
               (case array_items n (d # r) [] of
                  Ok vs r' \<Rightarrow> Ok (PList vs) r'
                | Fail \<Rightarrow> Fail
                | OutOfFuel \<Rightarrow> OutOfFuel)
         | [] \<Rightarrow> Fail)
      else if starts_with (c # cs) (ustr ''null'') then Ok PNone (drop 4 (c # cs))
      else if starts_with (c # cs) (ustr ''true'') then Ok (PBool True) (drop 4 (c # cs))
      else if starts_with (c # cs) (ustr ''false'') then Ok (PBool False) (drop 5 (c # cs))
      else
        (case match_number (c # cs) of
           Some (v, r) \<Rightarrow> Ok v r
         | None \<Rightarrow>
             (case match_constant (c # cs) of
                Some (v, r) \<Rightarrow> Ok v r
              | None \<Rightarrow> Fail)))"
| "array_items 0 s acc = OutOfFuel"
| "array_items (Suc n) s acc =
     (case scan_once n s of
        Fail \<Rightarrow> Fail
      | OutOfFuel \<Rightarrow> OutOfFuel
      | Ok v r \<Rightarrow>
          (case skip_ws r of
             d # r' \<Rightarrow>
               if d = 93 then Ok (acc @ [v]) r'
               else if d = 44 then array_items n (skip_ws r') (acc @ [v])
               else Fail
           | [] \<Rightarrow> Fail))"
| "object_members 0 s acc = OutOfFuel"
| "object_members (Suc n) s acc =
     (case scanstring s [] of
        None \<Rightarrow> Fail
      | Some (key, r) \<Rightarrow>
          (case skip_ws r of
             colon # r1 \<Rightarrow>
               if colon = 58 then
                 (case scan_once n (skip_ws r1) of
                    Fail \<Rightarrow> Fail
                  | OutOfFuel \<Rightarrow> OutOfFuel
                  | Ok v r2 \<Rightarrow>
                      (case skip_ws r2 of
                         d # r3 \<Rightarrow>
                           if d = 125 then Ok (acc @ [(key, v)]) r3
                           else if d = 44 then
                             (case skip_ws r3 of
                                q # r4 \<Rightarrow>
                                  if q = 34 then object_members n r4 (acc @ [(key, v)])
                                  else Fail
                              | [] \<Rightarrow> Fail)
                           else Fail
                       | [] \<Rightarrow> Fail))
               else Fail
           | [] \<Rightarrow> Fail))"

text \<open>
  \<open>json.loads(s)\<close>: whitespace, one value, whitespace, end of input (anything left is
  the error "Extra data").
\<close>

definition json_loads :: "pystr \<Rightarrow> exn + pyval" where
  "json_loads s =
     (case scan_once (2 * length s + 1) (skip_ws s) of
        Ok v r \<Rightarrow> if skip_ws r = [] then Inr v else Inl JSONDecodeError
      | Fail \<Rightarrow> Inl JSONDecodeError
      | OutOfFuel \<Rightarrow> Inl RecursionError)"

subsection \<open>The decoder consumes input, and its bound is never reached\<close>

lemma skip_ws_le: "length (skip_ws s) \<le> length s"
  by (simp add: skip_ws_def length_dropWhile_le)

lemma skip_ws_Cons_less: "skip_ws s = d # r \<Longrightarrow> length r < length s"
  using skip_ws_le [of s] by simp

lemma scanstring_shorter: "scanstring s acc = Some (str, r) \<Longrightarrow> length r < length s"
proof (induction s acc rule: scanstring.induct)
  case (1 acc)
  then show ?case by simp
next
  case (2 c cs acc)
  show ?case
  proof (cases "c = 34")
    case True
    with "2.prems" show ?thesis by simp
  next
    case nq: False
    show ?thesis
    proof (cases "c = 92")
      case True
      with nq "2.prems" obtain ch r1 where e: "scan_escape cs = Some (ch, r1)"
        and s: "scanstring r1 (acc @ [ch]) = Some (str, r)"
        by (auto split: option.splits)
      have "length r < length r1"
        using "2.IH"(1) [OF nq True e refl s] .
      moreover have "length r1 < length cs"
        using e by (rule scan_escape_shorter)
      ultimately show ?thesis by simp
    next
      case False
      with nq "2.prems" have c32: "\<not> c < 32" and s: "scanstring cs (acc @ [c]) = Some (str, r)"
        by (auto split: if_splits)
      have "length r < length cs"
        using "2.IH"(2) [OF nq False c32 s] .
      then show ?thesis by simp
    qed
  qed
qed

lemma match_integer_shorter: "match_integer s = Some (i, r) \<Longrightarrow> length r < length s"
  by (auto simp: match_integer_def split: list.splits if_splits
           intro: le_imp_less_Suc length_dropWhile_le)

lemma match_frac_le: "match_frac s = (f, r) \<Longrightarrow> length r \<le> length s"
  by (auto simp: match_frac_def split: list.splits if_splits
           intro: le_SucI length_dropWhile_le)

lemma match_exp_le: "match_exp s = (e, r) \<Longrightarrow> length r \<le> length s"
proof (cases s)
  case Nil
  then show "match_exp s = (e, r) \<Longrightarrow> length r \<le> length s" by (simp add: match_exp_def)
next
  case (Cons c x)
  assume m: "match_exp s = (e, r)"
  have a: "length (dropWhile is_digit x) \<le> length x" by (rule length_dropWhile_le)
  show "length r \<le> length s"
  proof (cases x)
    case Nil
    with m Cons show ?thesis by (auto simp: match_exp_def split: if_splits)
  next
    case (Cons sg y)
    have b: "length (dropWhile is_digit y) \<le> length y" by (rule length_dropWhile_le)
    from m \<open>s = c # x\<close> Cons a b show ?thesis
      by (auto simp: match_exp_def Let_def split: if_splits)
  qed
qed

lemma match_number_shorter:
  assumes "match_number s = Some (v, r)"
  shows "length r < length s"
proof -
  obtain neg s1 where ns: "(case s of c # r \<Rightarrow> if c = 45 then (True, r) else (False, s) | [] \<Rightarrow> (False, s)) = (neg, s1)"
    by (cases "(case s of c # r \<Rightarrow> if c = 45 then (True, r) else (False, s) | [] \<Rightarrow> (False, s))") auto
  then have l1: "length s1 \<le> length s"
    by (auto split: list.splits if_splits)
  from assms ns obtain integer r1 where mi: "match_integer s1 = Some (integer, r1)"
    by (auto simp: match_number_def split: option.splits)
  obtain frac r2 where mf: "match_frac r1 = (frac, r2)" by (cases "match_frac r1") auto
  obtain ex r3 where me: "match_exp r2 = (ex, r3)" by (cases "match_exp r2") auto
  from assms ns mi mf me have "r = r3"
    by (auto simp: match_number_def split: if_splits)
  with l1 match_integer_shorter [OF mi] match_frac_le [OF mf] match_exp_le [OF me]
  show ?thesis by simp
qed

lemma starts_with_drop_shorter:
  assumes "starts_with s p" and "p \<noteq> []" and "0 < k"
  shows "length (drop k s) < length s"
proof -
  from assms(1,2) have "s \<noteq> []"
    by (auto simp: starts_with_def)
  with assms(3) show ?thesis by simp
qed

lemma match_constant_shorter:
  assumes "match_constant s = Some (v, r)"
  shows "length r < length s"
proof -
  from assms have "\<exists>p k. starts_with s p \<and> p \<noteq> [] \<and> 0 < k \<and> r = drop k s"
    unfolding match_constant_def
    by (auto simp: ustr_def split: if_splits) (metis list.distinct(1) zero_less_numeral)+
  then show ?thesis
    using starts_with_drop_shorter by blast
qed

lemma starts_with_drop_shorter_ustr:
  "starts_with (c # cs) (ustr ''null'') \<Longrightarrow> length (drop 4 (c # cs)) < length (c # cs)"
  "starts_with (c # cs) (ustr ''true'') \<Longrightarrow> length (drop 4 (c # cs)) < length (c # cs)"
  "starts_with (c # cs) (ustr ''false'') \<Longrightarrow> length (drop 5 (c # cs)) < length (c # cs)"
  by simp_all

lemma scan_once_step_consumes:
  assumes A: "\<And>s acc vs r. array_items n s acc = Ok vs r \<Longrightarrow> length r < length s"
    and M: "\<And>s acc ps r. object_members n s acc = Ok ps r \<Longrightarrow> length r < length s"
    and E: "scan_once (Suc n) s = Ok v r"
  shows "length r < length s"
proof (cases s)
  case Nil
  with E show ?thesis by simp
next
  case (Cons c cs)
  show ?thesis
  proof (cases "c = 34")
    case True
    with E Cons show ?thesis
      by (auto split: option.splits dest: scanstring_shorter)
  next
    case nq: False
    show ?thesis
    proof (cases "c = 123")
      case True
      with nq E Cons show ?thesis
        by (auto split: list.splits if_splits scan.splits dest!: skip_ws_Cons_less M)
    next
      case nb: False
      show ?thesis
      proof (cases "c = 91")
        case True
        with nq nb E Cons show ?thesis
          by (auto split: list.splits if_splits scan.splits dest!: skip_ws_Cons_less A)
      next
        case False
        with nq nb E Cons show ?thesis
          by (auto simp del: drop_Suc_Cons list.size split: if_splits option.splits
                   dest: match_number_shorter match_constant_shorter
                         starts_with_drop_shorter_ustr)
      qed
    qed
  qed
qed

lemma array_items_step_consumes:
  assumes V: "\<And>s v r. scan_once n s = Ok v r \<Longrightarrow> length r < length s"
    and A: "\<And>s acc vs r. array_items n s acc = Ok vs r \<Longrightarrow> length r < length s"
    and E: "array_items (Suc n) s acc = Ok vs r"
  shows "length r < length s"
proof -
  from E obtain v r1 where v: "scan_once n s = Ok v r1"
    by (auto split: scan.splits)
  from E v obtain d r2 where d: "skip_ws r1 = d # r2"
    by (auto split: list.splits)
  have l: "length r2 < length s"
    using V [OF v] skip_ws_Cons_less [OF d] by simp
  show ?thesis
  proof (cases "d = 93")
    case True
    with E v d l show ?thesis by simp
  next
    case False
    with E v d have "array_items n (skip_ws r2) (acc @ [v]) = Ok vs r"
      by (auto split: if_splits)
    from A [OF this] skip_ws_le [of r2] l show ?thesis by simp
  qed
qed

lemma object_members_step_consumes:
  assumes V: "\<And>s v r. scan_once n s = Ok v r \<Longrightarrow> length r < length s"
    and M: "\<And>s acc ps r. object_members n s acc = Ok ps r \<Longrightarrow> length r < length s"
    and E: "object_members (Suc n) s acc = Ok ps r"
  shows "length r < length s"
proof -
  from E obtain key r0 where k: "scanstring s [] = Some (key, r0)"
    by (auto split: option.splits)
  from E k obtain colon r1 where c: "skip_ws r0 = colon # r1"
    by (auto split: list.splits)
  from E k c have c58: "colon = 58"
    by (auto split: if_splits)
  from E k c c58 obtain v r2 where v: "scan_once n (skip_ws r1) = Ok v r2"
    by (auto split: scan.splits)
  from E k c c58 v obtain d r3 where d: "skip_ws r2 = d # r3"
    by (auto split: list.splits)
  have l: "length r3 < length s"
    using scanstring_shorter [OF k] skip_ws_Cons_less [OF c] skip_ws_le [of r1]
      V [OF v] skip_ws_Cons_less [OF d] by simp
  show ?thesis
  proof (cases "d = 125")
    case True
    with E k c c58 v d l show ?thesis by simp
  next
    case False
    with E k c c58 v d obtain q r4 where q: "skip_ws r3 = q # r4"
      and m: "object_members n r4 (acc @ [(key, v)]) = Ok ps r"
      by (auto split: if_splits list.splits)
    from M [OF m] skip_ws_Cons_less [OF q] l show ?thesis by simp
  qed
qed

lemma consumes_all:
  "(\<forall>s v r. scan_once n s = Ok v r \<longrightarrow> length r < length s) \<and>
   (\<forall>s acc vs r. array_items n s acc = Ok vs r \<longrightarrow> length r < length s) \<and>
   (\<forall>s acc ps r. object_members n s acc = Ok ps r \<longrightarrow> length r < length s)"
proof (induction n)
  case 0
  show ?case by simp
next
  case (Suc n)
  then have V: "\<And>s v r. scan_once n s = Ok v r \<Longrightarrow> length r < length s"
    and A: "\<And>s acc vs r. array_items n s acc = Ok vs r \<Longrightarrow> length r < length s"
    and M: "\<And>s acc ps r. object_members n s acc = Ok ps r \<Longrightarrow> length r < length s"
    by blast+
  have 1: "length r < length s" if "scan_once (Suc n) s = Ok v r" for s v r
    using A M that by (rule scan_once_step_consumes)
  have 2: "length r < length s" if "array_items (Suc n) s acc = Ok vs r" for s acc vs r
    using V A that by (rule array_items_step_consumes)
  have 3: "length r < length s" if "object_members (Suc n) s acc = Ok ps r" for s acc ps r
    using V M that by (rule object_members_step_consumes)
  from 1 2 3 show ?case by blast
qed

lemma scan_once_consumes: "scan_once n s = Ok v r \<Longrightarrow> length r < length s"
  using consumes_all by blast

lemma scan_once_step_fuel:
  assumes A: "\<And>s acc. 2 * length s + 1 < n \<Longrightarrow> array_items n s acc \<noteq> OutOfFuel"
    and M: "\<And>s acc. 2 * length s + 1 < n \<Longrightarrow> object_members n s acc \<noteq> OutOfFuel"
    and L: "2 * length s < Suc n"
  shows "scan_once (Suc n) s \<noteq> OutOfFuel"
proof (cases s)
  case Nil
  then show ?thesis by simp
next
  case (Cons c cs)
  show ?thesis
  proof (cases "c = 34")
    case True
    with Cons show ?thesis
      by (auto split: option.splits)
  next
    case nq: False
    show ?thesis
    proof (cases "c = 123")
      case True
      show ?thesis
      proof (cases "skip_ws cs")
        case Nil
        with True nq Cons show ?thesis by simp
      next
        case (Cons d r)
        then have "length r < length cs" by (rule skip_ws_Cons_less)
        with L \<open>s = c # cs\<close> have "2 * length r + 1 < n" by simp
        then have "object_members n r [] \<noteq> OutOfFuel" by (rule M)
        with True nq Cons \<open>s = c # cs\<close> show ?thesis
          by (auto split: scan.splits)
      qed
    next
      case nb: False
      show ?thesis
      proof (cases "c = 91")
        case True
        show ?thesis
        proof (cases "skip_ws cs")
          case Nil
          with True nq nb Cons show ?thesis by simp
        next
          case (Cons d r)
          have "length (d # r) \<le> length cs"
            using skip_ws_le [of cs] Cons by simp
          with L \<open>s = c # cs\<close> have "2 * length (d # r) + 1 < n" by simp
          then have "array_items n (d # r) [] \<noteq> OutOfFuel" by (rule A)
          with True nq nb Cons \<open>s = c # cs\<close> show ?thesis
            by (auto split: scan.splits)
        qed
      next
        case False
        with nq nb Cons show ?thesis
          by (auto split: option.splits)
      qed
    qed
  qed
qed

lemma array_items_step_fuel:
  assumes V: "\<And>s. 2 * length s < n \<Longrightarrow> scan_once n s \<noteq> OutOfFuel"
    and A: "\<And>s acc. 2 * length s + 1 < n \<Longrightarrow> array_items n s acc \<noteq> OutOfFuel"
    and L: "2 * length s + 1 < Suc n"
  shows "array_items (Suc n) s acc \<noteq> OutOfFuel"
proof (cases "scan_once n s")
  case (Ok v r1)
  have l1: "length r1 < length s" using Ok by (rule scan_once_consumes)
  show ?thesis
  proof (cases "skip_ws r1")
    case Nil
    with Ok show ?thesis by simp
  next
    case (Cons d r2)
    have "length (skip_ws r2) \<le> length r2" by (rule skip_ws_le)
    with skip_ws_Cons_less [OF Cons] l1 L have "2 * length (skip_ws r2) + 1 < n" by simp
    then have "array_items n (skip_ws r2) (acc @ [v]) \<noteq> OutOfFuel" by (rule A)
    with Ok Cons show ?thesis by simp
  qed
next
  case Fail
  then show ?thesis by simp
next
  case OutOfFuel
  moreover from L have "scan_once n s \<noteq> OutOfFuel" by (intro V) simp
  ultimately show ?thesis by simp
qed

lemma object_members_step_fuel:
  assumes V: "\<And>s. 2 * length s < n \<Longrightarrow> scan_once n s \<noteq> OutOfFuel"
    and M: "\<And>s acc. 2 * length s + 1 < n \<Longrightarrow> object_members n s acc \<noteq> OutOfFuel"
    and L: "2 * length s + 1 < Suc n"
  shows "object_members (Suc n) s acc \<noteq> OutOfFuel"
proof (cases "scanstring s []")
  case None
  then show ?thesis by simp
next
  case (Some kr)
  obtain key r0 where kr: "kr = (key, r0)" by (cases kr)
  have l0: "length r0 < length s"
    using Some kr scanstring_shorter by blast
  show ?thesis
  proof (cases "skip_ws r0")
    case Nil
    with Some kr show ?thesis by simp
  next
    case (Cons colon r1)
    have l1: "length (skip_ws r1) < length s"
      using skip_ws_Cons_less [OF Cons] skip_ws_le [of r1] l0 by simp
    with L have "scan_once n (skip_ws r1) \<noteq> OutOfFuel" by (intro V) simp
    show ?thesis
    proof (cases "scan_once n (skip_ws r1)")
      case (Ok v r2)
      have l2: "length r2 < length s"
        using scan_once_consumes [OF Ok] l1 by simp
      show ?thesis
      proof (cases "skip_ws r2")
        case Nil
        with Some kr Cons Ok show ?thesis by simp
      next
        case d: (Cons d r3)
        show ?thesis
        proof (cases "skip_ws r3")
          case Nil
          with Some kr Cons Ok d show ?thesis by simp
        next
          case q: (Cons q r4)
          have "length r4 < length s"
            using skip_ws_Cons_less [OF q] skip_ws_Cons_less [OF d] l2 by simp
          with L have "2 * length r4 + 1 < n" by simp
          then have "object_members n r4 (acc @ [(key, v)]) \<noteq> OutOfFuel" by (rule M)
          with Some kr Cons Ok d q show ?thesis by simp
        qed
      qed
    next
      case Fail
      with Some kr Cons show ?thesis by simp
    next
      case OutOfFuel
      with \<open>scan_once n (skip_ws r1) \<noteq> OutOfFuel\<close> show ?thesis by simp
    qed
  qed
qed

lemma fuel_all:
  "(\<forall>s. 2 * length s < n \<longrightarrow> scan_once n s \<noteq> OutOfFuel) \<and>
   (\<forall>s acc. 2 * length s + 1 < n \<longrightarrow> array_items n s acc \<noteq> OutOfFuel) \<and>
   (\<forall>s acc. 2 * length s + 1 < n \<longrightarrow> object_members n s acc \<noteq> OutOfFuel)"
proof (induction n)
  case 0
  show ?case by simp
next
  case (Suc n)
  then have V: "\<And>s. 2 * length s < n \<Longrightarrow> scan_once n s \<noteq> OutOfFuel"
    and A: "\<And>s acc. 2 * length s + 1 < n \<Longrightarrow> array_items n s acc \<noteq> OutOfFuel"
    and M: "\<And>s acc. 2 * length s + 1 < n \<Longrightarrow> object_members n s acc \<noteq> OutOfFuel"
    by blast+
  have 1: "scan_once (Suc n) s \<noteq> OutOfFuel" if "2 * length s < Suc n" for s
    using A M that by (rule scan_once_step_fuel)
  have 2: "array_items (Suc n) s acc \<noteq> OutOfFuel" if "2 * length s + 1 < Suc n" for s acc
    using V A that by (rule array_items_step_fuel)
  have 3: "object_members (Suc n) s acc \<noteq> OutOfFuel" if "2 * length s + 1 < Suc n" for s acc
    using V M that by (rule object_members_step_fuel)
  from 1 2 3 show ?case by blast
qed

lemma json_loads_no_recursion_error: "json_loads s \<noteq> Inl RecursionError"
proof -
  have "2 * length (skip_ws s) < 2 * length s + 1"
    using skip_ws_le [of s] by simp
  with fuel_all have "scan_once (2 * length s + 1) (skip_ws s) \<noteq> OutOfFuel"
    by blast
  then show ?thesis
    by (auto simp: json_loads_def split: scan.splits)
qed

section \<open>The research agent\<close>

subsection \<open>Collaborators and data\<close>

text \<open>
  What the agent calls but does not define is a parameter of the model:
  \<^item> \<open>getenv\<close>: \<open>os.getenv\<close>, the process environment after \<open>load_dotenv()\<close>;
  \<^item> \<open>generate_content\<close>: \<open>model_instance.generate_content(prompt).text\<close>, the text of the
    language model's response or the exception of the call;
  \<^item> \<open>get_dict\<close>: \<open>GoogleSearch({"q": q, "api_key": k, "num": n}).get_dict()\<close>, reduced to
    the one key that is read: \<open>None\<close> when the response has no \<open>"organic_results"\<close>,
    otherwise the list of result records, or the exception of the call;
  \<^item> \<open>py_str\<close>: the builtin \<open>str()\<close> on values that are not strings.
  A result record of the provider is a dict; the values of the three keys that are read
  are strings, as the provider documents them.
\<close>

type_synonym provider_record = "pystr \<rightharpoonup> pystr"

record env =
  getenv :: "pystr \<Rightarrow> pystr option"
  generate_content :: "pystr \<Rightarrow> exn + pystr"
  get_dict :: "pyval \<Rightarrow> pystr option \<Rightarrow> int \<Rightarrow> exn + provider_record list option"
  py_str :: "pyval \<Rightarrow> pystr"

text \<open>A replacement field \<open>{v}\<close> of an f-string: a string as it is, anything else through \<open>str()\<close>.\<close>

definition py_format :: "env \<Rightarrow> pyval \<Rightarrow> pystr" where
  "py_format e v = (case v of PStr s \<Rightarrow> s | _ \<Rightarrow> py_str e v)"

record agent =
  model :: pystr
  topn :: int
  debug :: bool
  gemini_key :: "pystr option"
  serp_key :: "pystr option"

record search_result =
  title :: pystr
  snippet :: pystr
  url :: pystr

record query_block =
  query :: pyval
  results :: "search_result list"

record step =
  type :: pystr
  content :: pystr

text \<open>
  The dict that \<open>run\<close> returns. \<open>sources\<close> is \<open>list(set(all_urls))\<close>: a list of the
  elements of a set, each once, in an order Python leaves open; the model keeps the set.
\<close>

record research_result =
  question :: pystr
  answer :: pystr
  sources :: "pystr set"
  steps :: "step list"

subsection \<open>Construction\<close>

text \<open>Truth value of an \<open>Optional[str]\<close>: \<open>None\<close> and the empty string are false.\<close>

definition truthy :: "pystr option \<Rightarrow> bool" where
  "truthy x = (case x of None \<Rightarrow> False | Some s \<Rightarrow> s \<noteq> [])"

definition py_or :: "pystr option \<Rightarrow> pystr option \<Rightarrow> pystr option" where
  "py_or x y = (if truthy x then x else y)"

text \<open>
  \<open>ResearchAgent.__init__\<close>. \<open>genai.configure\<close> and \<open>genai.GenerativeModel\<close> only store
  their arguments; the model instance they give is \<open>generate_content\<close>.
\<close>

definition init ::
  "env \<Rightarrow> pystr \<Rightarrow> int \<Rightarrow> bool \<Rightarrow> pystr option \<Rightarrow> pystr option \<Rightarrow> exn + agent" where
  "init e model' topn' debug' gemini_key' serpapi_key' =
     (let gk = py_or gemini_key' (getenv e (ustr ''GEMINI_API_KEY''));
          sk = py_or serpapi_key' (getenv e (ustr ''SERPAPI_API_KEY''))
      in if \<not> truthy gk \<or> \<not> truthy sk
         then Inl (RuntimeError ''GEMINI_API_KEY and SERPAPI_API_KEY must be set.'')
         else Inr \<lparr>model = model', topn = topn', debug = debug',
                   gemini_key = gk, serp_key = sk\<rparr>)"

definition sys_prompt :: pystr where
  "sys_prompt =
     ustr ''You are a research assistant working as of the current date, 2025-11-02. Your task is to provide answers based on today's date, ensuring all information is current and accurate.'' @ [10] @
     ustr ''When the user requests information about current events, such as live scores, ongoing matches, or recent data, you are required to search relevant, authoritative websites for the most up-to-date information and present it.'' @ [10] @
     ustr ''If the user asks for real-time data like the score of a cricket match, use web search tools to find and provide the most accurate and current results available.'' @ [10] @
     ustr ''Always cite the sources you reference in Markdown format, like this: [Source](https://example.com).'' @ [10] @
     ustr ''Your responses should be concise, factual, and supported by the most recent information from trustworthy sources.''"

subsection \<open>Searching\<close>

text \<open>\<open>xs[:stop]\<close> for an integer \<open>stop\<close>: a negative \<open>stop\<close> counts from the end.\<close>

definition slice_to :: "'a list \<Rightarrow> int \<Rightarrow> 'a list" where
  "slice_to xs stop =
     (let n = int (length xs);
          e = (if stop < 0 then (if stop + n < 0 then 0 else stop + n)
               else (if n \<le> stop then n else stop))
      in take (nat e) xs)"

text \<open>\<open>d.get(key, default)\<close>.\<close>

definition dict_get :: "('k \<rightharpoonup> 'v) \<Rightarrow> 'k \<Rightarrow> 'v \<Rightarrow> 'v" where
  "dict_get d key dflt = (case d key of None \<Rightarrow> dflt | Some v \<Rightarrow> v)"

text \<open>The body of the loop of \<open>_search_web\<close>: one record of the provider, one result.\<close>

definition to_result :: "provider_record \<Rightarrow> search_result" where
  "to_result r =
     (let title' = dict_get r (ustr ''title'') (ustr ''(untitled)'');
          snippet' = dict_get r (ustr ''snippet'') (ustr ''(no snippet)'');
          link = dict_get r (ustr ''link'') []
      in \<lparr>title = title', snippet = snippet', url = link\<rparr>)"

text \<open>\<open>search.get_dict().get("organic_results", [])\<close>.\<close>

definition organic_results :: "provider_record list option \<Rightarrow> provider_record list" where
  "organic_results response = (case response of None \<Rightarrow> [] | Some rs \<Rightarrow> rs)"

text \<open>
  \<open>_search_web\<close>: the lines printed, and the block or the exception of the provider's
  call.
\<close>

definition search_web :: "env \<Rightarrow> agent \<Rightarrow> pyval \<Rightarrow> pystr list \<times> (exn + query_block)" where
  "search_web e a q =
     (let out = (if debug a
                 then [ustr ''[DEBUG] '' @ [8594] @ ustr '' SerpAPI query: '' @ [39] @
                       py_format e q @ [39]]
                 else [])
      in case get_dict e q (serp_key a) (topn a) of
           Inl err \<Rightarrow> (out, Inl err)
         | Inr response \<Rightarrow>
             (let data = slice_to (organic_results response) (topn a);
                  results' = foldl (\<lambda>acc r. acc @ [to_result r]) [] data
              in (out, Inr \<lparr>query = q, results = results'\<rparr>)))"

subsection \<open>The thread pool\<close>

text \<open>
  \<open>list(pool.map(fn, items))\<close> inside \<open>with ThreadPoolExecutor() as pool\<close>: one task per
  item, every task runs to its end, and the tasks finish in an order the pool does not
  fix. \<open>finish_order n order\<close> is that order for \<open>n\<close> tasks: the tasks named in \<open>order\<close>
  first, as they are named there, then the others. Each finished task leaves its
  outcome under its own index; the outcomes are then read by index, and the first
  exception found in that reading is raised.
\<close>

definition finish_order :: "nat \<Rightarrow> nat list \<Rightarrow> nat list" where
  "finish_order n order =
     remdups (filter (\<lambda>i. i < n) order) @ filter (\<lambda>i. i \<notin> set order) [0..<n]"

fun first_error :: "('e + 'b) list \<Rightarrow> 'e + 'b list" where
  "first_error [] = Inr []"
| "first_error (Inl err # rs) = Inl err"
| "first_error (Inr v # rs) = (case first_error rs of Inl err \<Rightarrow> Inl err | Inr vs \<Rightarrow> Inr (v # vs))"

definition pool_map ::
  "nat list \<Rightarrow> ('a \<Rightarrow> pystr list \<times> ('e + 'b)) \<Rightarrow> 'a list \<Rightarrow> pystr list \<times> ('e + 'b list)" where
  "pool_map order fn items =
     (let finished = map (\<lambda>i. (i, fn (items ! i))) (finish_order (length items) order);
          out = concat (map (\<lambda>(i, lines, outcome). lines) finished);
          by_index = sort_key fst finished
      in (out, first_error (map (\<lambda>(i, lines, outcome). outcome) by_index)))"

subsection \<open>The pipeline\<close>

definition search_prompt :: "pystr \<Rightarrow> pystr" where
  "search_prompt question' =
     sys_prompt @ [10, 10] @
     ustr ''User question: '' @ question' @ [10, 10] @
     ustr ''List up to 5 specific Google search queries (in JSON array format) '' @
     ustr ''that will help answer the question. Example:'' @ [10] @
     ustr ''[\"topic 1\", \"topic 2\"]''"

text \<open>
  Lines 78 to 85 of \<open>run\<close>: the response text is stripped, then decoded; a decoded list
  is the list of queries, anything else (a value that is no list, or any exception of
  the decoder) gives the stripped text as the only query.
\<close>

definition plan_queries :: "pystr \<Rightarrow> pyval list" where
  "plan_queries response_text =
     (let search_queries_text = py_strip response_text
      in case json_loads search_queries_text of
           Inl err \<Rightarrow> [PStr search_queries_text]
         | Inr queries \<Rightarrow>
             (case queries of
                PList qs \<Rightarrow> qs
              | _ \<Rightarrow> [PStr search_queries_text]))"

text \<open>Lines 90 and 91: the searches, through the pool.\<close>

definition retrieve ::
  "env \<Rightarrow> nat list \<Rightarrow> agent \<Rightarrow> pyval list \<Rightarrow> pystr list \<times> (exn + query_block list)" where
  "retrieve e order a queries = pool_map order (search_web e a) queries"

text \<open>
  Lines 94 to 104: the two nested loops, with the variables they update as the state
  of a fold: \<open>block_text\<close> and \<open>all_urls\<close> in the inner loop, \<open>combined_context_parts\<close>
  and \<open>all_urls\<close> in the outer one.
\<close>

definition render_result :: "pystr \<times> pystr list \<Rightarrow> search_result \<Rightarrow> pystr \<times> pystr list" where
  "render_result st r =
     (let (block_text, all_urls) = st
      in (block_text @ ustr ''- '' @ title r @ ustr '': '' @ snippet r @ [10] @
            ustr ''(Source: '' @ url r @ ustr '')'' @ [10],
          if url r \<noteq> [] then all_urls @ [url r] else all_urls))"

definition render_block ::
  "env \<Rightarrow> pystr list \<times> pystr list \<Rightarrow> query_block \<Rightarrow> pystr list \<times> pystr list" where
  "render_block e st search_block =
     (let (combined_context_parts, all_urls) = st;
          q = query search_block;
          block_text = ustr ''### Search: '' @ py_format e q @ [10];
          (block_text', all_urls') =
             foldl render_result (block_text, all_urls) (results search_block)
      in (combined_context_parts @ [block_text'], all_urls'))"

definition combine :: "env \<Rightarrow> query_block list \<Rightarrow> pystr list \<times> pystr list" where
  "combine e blocks = foldl (render_block e) ([], []) blocks"

text \<open>Line 106.\<close>

definition combined_context :: "env \<Rightarrow> query_block list \<Rightarrow> pystr" where
  "combined_context e blocks = py_join [10] (fst (combine e blocks))"

definition final_prompt :: "pystr \<Rightarrow> pystr \<Rightarrow> pystr" where
  "final_prompt question' context =
     sys_prompt @ [10, 10] @
     ustr ''User question: '' @ question' @ [10, 10] @
     ustr ''Here are the gathered search results (with URLs):'' @ [10, 10] @
     context @ [10, 10] @
     ustr ''Now write a detailed, well-structured, and factually correct answer. '' @
     ustr ''At the end, include a short 'Sources' section listing all relevant URLs in Markdown format.''"

text \<open>
  \<open>run\<close>: the lines printed and the returned dict, or the exception that ends the
  call. \<open>order\<close> is the order in which the pool's tasks finish.
\<close>

definition run ::
  "env \<Rightarrow> nat list \<Rightarrow> agent \<Rightarrow> pystr \<Rightarrow> pystr list \<times> (exn + research_result)" where
  "run e order a question' =
     (let out0 = (if debug a
                  then [ustr ''[DEBUG] '' @ [8594] @ ustr '' Starting research on: '' @ question']
                  else [])
      in case generate_content e (search_prompt question') of
           Inl err \<Rightarrow> (out0, Inl err)
         | Inr response_text \<Rightarrow>
             (let queries = plan_queries response_text;
                  out1 = out0 @
                    (if debug a
                     then [ustr ''[DEBUG] '' @ [8594] @ ustr '' Suggested queries: '' @
                           py_format e (PList queries)]
                     else []);
                  (out_search, searched) = retrieve e order a queries
              in case searched of
                   Inl err \<Rightarrow> (out1 @ out_search, Inl err)
                 | Inr blocks \<Rightarrow>
                     (let all_urls = snd (combine e blocks);
                          out2 = out1 @ out_search @
                            (if debug a
                             then [ustr ''[DEBUG] '' @ [8594] @
                                   ustr '' Gemini generating final synthesis with citations...'']
                             else [])
                      in case generate_content e
                                (final_prompt question' (combined_context e blocks)) of
                           Inl err \<Rightarrow> (out2, Inl err)
                         | Inr final_text \<Rightarrow>
                             (let answer' = py_strip final_text;
                                  steps' = [] @ [\<lparr>type = ustr ''assistant_answer'',
                                                  content = answer'\<rparr>]
                              in (out2, Inr \<lparr>question = question', answer = answer',
                                             sources = set all_urls, steps = steps'\<rparr>)))))"

section \<open>Properties\<close>

subsection \<open>The format of the rendered context, as the specification words it\<close>

text \<open>
  One result of a block: \<open>- <title>: <snippet>\<close>, and \<open>(Source: <url>)\<close> on the next line.
\<close>

definition result_lines :: "search_result \<Rightarrow> pystr" where
  "result_lines r =
     ustr ''- '' @ title r @ ustr '': '' @ snippet r @ [10] @
     ustr ''(Source: '' @ url r @ ustr '')'' @ [10]"

text \<open>One block: the line \<open>### Search: <query>\<close>, then its results in order.\<close>

definition section_text :: "env \<Rightarrow> query_block \<Rightarrow> pystr" where
  "section_text e b =
     ustr ''### Search: '' @ py_format e (query b) @ [10] @ concat (map result_lines (results b))"

text \<open>The non-empty URLs of one block, in order.\<close>

definition block_urls :: "query_block \<Rightarrow> pystr list" where
  "block_urls b = filter (\<lambda>u. u \<noteq> []) (map url (results b))"

subsection \<open>Collaborators for the examples\<close>

text \<open>
  A provider that answers every query with the same twenty records (two of them with
  the same link, one with an empty link, the others with none), a language model that
  answers every prompt with a JSON array of three queries and a newline, and an
  environment that holds the language model's key only.
\<close>

definition example_records :: "provider_record list" where
  "example_records =
     [[ustr ''title'' \<mapsto> ustr ''A'', ustr ''link'' \<mapsto> ustr ''https://x.test''],
      [ustr ''title'' \<mapsto> ustr ''B'', ustr ''link'' \<mapsto> []],
      [ustr ''snippet'' \<mapsto> ustr ''C'', ustr ''link'' \<mapsto> ustr ''https://x.test''],
      Map.empty,
      Map.empty] @ replicate 15 [ustr ''title'' \<mapsto> ustr ''Z'']"

definition example_env :: env where
  "example_env =
     \<lparr>getenv = (\<lambda>k. if k = ustr ''GEMINI_API_KEY'' then Some (ustr ''gk'') else None),
      generate_content = (\<lambda>p. Inr (ustr ''[\"q1\", \"q2\", \"q3\"]'' @ [10])),
      get_dict = (\<lambda>q k n. Inr (Some example_records)),
      py_str = (\<lambda>v. ustr ''?'')\<rparr>"

definition example_agent :: "int \<Rightarrow> agent" where
  "example_agent n =
     \<lparr>model = ustr ''gemini-2.5-flash'', topn = n, debug = False,
      gemini_key = Some (ustr ''gk''), serp_key = Some (ustr ''sk'')\<rparr>"

definition example_results :: "search_result list" where
  "example_results =
     [\<lparr>title = ustr ''A'', snippet = ustr ''(no snippet)'', url = ustr ''https://x.test''\<rparr>,
      \<lparr>title = ustr ''B'', snippet = ustr ''(no snippet)'', url = []\<rparr>,
      \<lparr>title = ustr ''(untitled)'', snippet = ustr ''C'', url = ustr ''https://x.test''\<rparr>,
      \<lparr>title = ustr ''(untitled)'', snippet = ustr ''(no snippet)'', url = []\<rparr>,
      \<lparr>title = ustr ''(untitled)'', snippet = ustr ''(no snippet)'', url = []\<rparr>]"

lemma length_example_records: "length example_records = 20"
  by (simp add: example_records_def)

lemma take_example_records:
  "map to_result (take 5 example_records) = example_results"
  by (simp add: example_records_def example_results_def to_result_def dict_get_def ustr_def)

subsection \<open>Loops as maps\<close>

lemma foldl_snoc_map: "foldl (\<lambda>acc r. acc @ [f r]) acc0 xs = acc0 @ map f xs"
  by (induction xs arbitrary: acc0) simp_all

lemma search_web_outcome:
  "snd (search_web e a q) =
     (case get_dict e q (serp_key a) (topn a) of
        Inl err \<Rightarrow> Inl err
      | Inr response \<Rightarrow>
          Inr \<lparr>query = q,
               results = map to_result (slice_to (organic_results response) (topn a))\<rparr>)"
  by (simp add: search_web_def Let_def foldl_snoc_map split: sum.splits)

lemma search_web_result:
  "get_dict e q (serp_key a) (topn a) = Inr response \<Longrightarrow>
   snd (search_web e a q) =
     Inr \<lparr>query = q, results = map to_result (slice_to (organic_results response) (topn a))\<rparr>"
  by (simp add: search_web_outcome)

lemma search_web_query:
  assumes "snd (search_web e a q) = Inr b"
  shows "query b = q"
proof (cases "get_dict e q (serp_key a) (topn a)")
  case (Inl err)
  with assms show ?thesis by (simp add: search_web_outcome)
next
  case (Inr response)
  with assms have "b = \<lparr>query = q,
      results = map to_result (slice_to (organic_results response) (topn a))\<rparr>"
    by (simp add: search_web_outcome)
  then show ?thesis by simp
qed


lemma foldl_render_result:
  "foldl render_result (block_text, all_urls) rs =
     (block_text @ concat (map result_lines rs),
      all_urls @ filter (\<lambda>u. u \<noteq> []) (map url rs))"
proof (induction rs arbitrary: block_text all_urls)
  case Nil
  show ?case by simp
next
  case (Cons r rs)
  have "render_result (block_text, all_urls) r =
          (block_text @ result_lines r, if url r \<noteq> [] then all_urls @ [url r] else all_urls)"
    by (simp add: render_result_def result_lines_def)
  then show ?case
    by (simp add: Cons.IH)
qed

lemma render_block_eq:
  "render_block e (parts, all_urls) b = (parts @ [section_text e b], all_urls @ block_urls b)"
  by (simp add: render_block_def Let_def foldl_render_result section_text_def block_urls_def)

lemma foldl_render_block:
  "foldl (render_block e) (parts, all_urls) blocks =
     (parts @ map (section_text e) blocks, all_urls @ concat (map block_urls blocks))"
  by (induction blocks arbitrary: parts all_urls) (simp_all add: render_block_eq)

lemma combine_eq:
  "combine e blocks = (map (section_text e) blocks, concat (map block_urls blocks))"
  by (simp add: combine_def foldl_render_block)

lemma sources_set:
  "set (snd (combine e blocks)) =
     {u. u \<noteq> [] \<and> (\<exists>b \<in> set blocks. \<exists>r \<in> set (results b). url r = u)}"
  by (auto simp: combine_eq block_urls_def)

subsection \<open>The pool returns the outcomes by position\<close>

lemma finish_order_distinct: "distinct (finish_order n order)"
  by (auto simp: finish_order_def)

lemma finish_order_set: "set (finish_order n order) = {0..<n}"
  by (auto simp: finish_order_def)

lemma finish_order_mset: "mset (finish_order n order) = mset [0..<n]"
proof -
  have "set (finish_order n order) = set [0..<n]"
    by (simp add: finish_order_set)
  then show ?thesis
    using finish_order_distinct [of n order] distinct_upt [of 0 n]
      set_eq_iff_mset_eq_distinct by blast
qed

text \<open>Every order in which \<open>n\<close> tasks can finish is a value of \<open>finish_order n\<close>.\<close>

lemma finish_order_permutation:
  assumes "mset order = mset [0..<n]"
  shows "finish_order n order = order"
proof -
  have d: "distinct order"
    using assms by (metis distinct_upt mset_eq_imp_distinct_iff)
  have s: "set order = {0..<n}"
    using assms by (metis atLeastLessThan_upt mset_eq_setD)
  have "filter (\<lambda>i. i < n) order = order"
    using s by (auto intro: filter_True)
  moreover have "filter (\<lambda>i. i \<notin> set order) [0..<n] = []"
    using s by (auto simp: filter_empty_conv)
  ultimately show ?thesis
    using d by (simp add: finish_order_def)
qed

lemma sort_finished:
  "sort_key fst (map (\<lambda>i. (i, g i)) (finish_order n order)) = map (\<lambda>i. (i, g i)) [0..<n]"
proof (rule sort_key_inj_key_eq)
  show "mset (map (\<lambda>i. (i, g i)) (finish_order n order)) = mset (map (\<lambda>i. (i, g i)) [0..<n])"
    using finish_order_mset [of n order] by (metis mset_map)
  show "inj_on fst (set (map (\<lambda>i. (i, g i)) (finish_order n order)))"
    by (auto simp: inj_on_def)
  show "sorted (map fst (map (\<lambda>i. (i, g i)) [0..<n]))"
    by (simp add: comp_def)
qed

lemma pool_map_outcome:
  "snd (pool_map order fn items) = first_error (map (\<lambda>x. snd (fn x)) items)"
proof -
  have "map (\<lambda>(i, lines, outcome). outcome)
          (map (\<lambda>i. (i, fn (items ! i))) [0..<length items]) =
        map (\<lambda>i. snd (fn (items ! i))) [0..<length items]"
    by (simp add: comp_def case_prod_unfold)
  also have "\<dots> = map (\<lambda>x. snd (fn x)) (map (\<lambda>i. items ! i) [0..<length items])"
    by (simp add: comp_def)
  also have "\<dots> = map (\<lambda>x. snd (fn x)) items"
    by (simp add: map_nth)
  finally show ?thesis
    by (simp add: pool_map_def Let_def sort_finished)
qed

lemma first_error_Inr:
  "first_error rs = Inr vs \<Longrightarrow> rs = map Inr vs"
proof (induction rs arbitrary: vs rule: first_error.induct)
  case 1
  then show ?case by simp
next
  case (2 err rs)
  then show ?case by simp
next
  case (3 v rs)
  then show ?case by (auto split: sum.splits)
qed


lemma retrieve_outcome:
  "snd (retrieve e order a queries) = first_error (map (\<lambda>q. snd (search_web e a q)) queries)"
  by (simp add: retrieve_def pool_map_outcome)

subsection \<open>The outcome of a run\<close>

lemma run_outcome:
  "snd (run e order a qn) =
     (case generate_content e (search_prompt qn) of
        Inl err \<Rightarrow> Inl err
      | Inr raw \<Rightarrow>
          (case snd (retrieve e order a (plan_queries raw)) of
             Inl err \<Rightarrow> Inl err
           | Inr blocks \<Rightarrow>
               (case generate_content e (final_prompt qn (combined_context e blocks)) of
                  Inl err \<Rightarrow> Inl err
                | Inr final \<Rightarrow>
                    Inr \<lparr>question = qn, answer = py_strip final,
                         sources = set (snd (combine e blocks)),
                         steps = [\<lparr>type = ustr ''assistant_answer'',
                                   content = py_strip final\<rparr>]\<rparr>)))"
  by (simp add: run_def Let_def split: sum.splits prod.splits)


subsection \<open>Planning\<close>



lemma strip_examples:
  "py_strip (ustr ''find recent scores'' @ [10]) = ustr ''find recent scores''"
  "py_strip (ustr ''find recent scores'') = ustr ''find recent scores''"
  "py_strip (ustr ''[]'') = ustr ''[]''"
  "py_strip (ustr ''[\"a\", \"b\", \"c\", \"d\", \"e\", \"f\"]'') =
     ustr ''[\"a\", \"b\", \"c\", \"d\", \"e\", \"f\"]''"
  "py_strip (ustr ''[42]'') = ustr ''[42]''"
  "py_strip (ustr '' 42 '') = ustr ''42''"
  "py_strip (ustr ''[\"a\", \"b\", \"c\"]'') = ustr ''[\"a\", \"b\", \"c\"]''"
  "py_strip (ustr ''{\"a\": 1}'') = ustr ''{\"a\": 1}''"
  "py_strip (ustr ''[\"q1\", \"q2\", \"q3\"]'' @ [10]) = ustr ''[\"q1\", \"q2\", \"q3\"]''"
  by (simp_all add: py_strip_def py_isspace_def ustr_def)

lemma loads_examples:
  "json_loads (ustr ''find recent scores'') = Inl JSONDecodeError"
  "json_loads (ustr ''find recent scores'' @ [10]) = Inl JSONDecodeError"
  "json_loads (ustr ''[]'') = Inr (PList [])"
  "json_loads (ustr ''[\"a\", \"b\", \"c\", \"d\", \"e\", \"f\"]'') =
     Inr (PList [PStr (ustr ''a''), PStr (ustr ''b''), PStr (ustr ''c''),
                 PStr (ustr ''d''), PStr (ustr ''e''), PStr (ustr ''f'')])"
  "json_loads (ustr ''[42]'') = Inr (PList [PInt 42])"
  "json_loads (ustr ''42'') = Inr (PInt 42)"
  "json_loads (ustr ''[\"a\", \"b\", \"c\"]'') =
     Inr (PList [PStr (ustr ''a''), PStr (ustr ''b''), PStr (ustr ''c'')])"
  "json_loads (ustr ''{\"a\": 1}'') = Inr (PDict [(ustr ''a'', PInt 1)])"
  "json_loads (ustr ''[\"q1\", \"q2\", \"q3\"]'') =
     Inr (PList [PStr (ustr ''q1''), PStr (ustr ''q2''), PStr (ustr ''q3'')])"
  by code_simp+

subsection \<open>Sources\<close>

text \<open>
  Claim C1. For every invocation of \<open>run\<close> that returns, the \<open>sources\<close> of the result are
  exactly the distinct non-empty URLs of the blocks produced in that invocation: every
  result with a non-empty \<open>url\<close> contributes it, a repeated URL is there once (\<open>sources\<close>
  is the set of the collected URLs), and the empty string is left out.
\<close>

theorem run_sources:
  assumes "snd (run e order a qn) = Inr res"
  shows "\<exists>raw blocks.
           generate_content e (search_prompt qn) = Inr raw \<and>
           snd (retrieve e order a (plan_queries raw)) = Inr blocks \<and>
           sources res = {u. u \<noteq> [] \<and> (\<exists>b \<in> set blocks. \<exists>r \<in> set (results b). url r = u)}"
proof -
  from assms obtain raw where t: "generate_content e (search_prompt qn) = Inr raw"
    by (auto simp: run_outcome split: sum.splits)
  from assms t obtain blocks where
    b: "snd (retrieve e order a (plan_queries raw)) = Inr blocks"
    by (auto simp: run_outcome split: sum.splits)
  from assms t b have "sources res = set (snd (combine e blocks))"
    by (auto simp: run_outcome split: sum.splits)
  with t b show ?thesis
    by (auto simp: sources_set)
qed

lemma example_plan:
  "plan_queries (ustr ''[\"q1\", \"q2\", \"q3\"]'' @ [10]) =
     [PStr (ustr ''q1''), PStr (ustr ''q2''), PStr (ustr ''q3'')]"
  by (simp add: plan_queries_def Let_def strip_examples loads_examples)

lemma example_search:
  "snd (search_web example_env (example_agent 5) q) = Inr \<lparr>query = q, results = example_results\<rparr>"
proof -
  have "slice_to example_records 5 = take 5 example_records"
    by (simp add: slice_to_def Let_def length_example_records)
  then show ?thesis
    by (simp add: search_web_outcome example_env_def example_agent_def organic_results_def
        take_example_records)
qed

lemma example_retrieve:
  "snd (retrieve example_env order (example_agent 5) [q1, q2, q3]) =
     Inr [\<lparr>query = q1, results = example_results\<rparr>,
          \<lparr>query = q2, results = example_results\<rparr>,
          \<lparr>query = q3, results = example_results\<rparr>]"
  by (simp add: retrieve_outcome example_search)

theorem run_sources_witness:
  "\<exists>res. snd (run example_env [2, 0, 1] (example_agent 5) (ustr ''Q'')) = Inr res \<and>
         sources res = {ustr ''https://x.test''}"
proof -
  let ?raw = "ustr ''[\"q1\", \"q2\", \"q3\"]'' @ [10]"
  let ?blocks = "[\<lparr>query = PStr (ustr ''q1''), results = example_results\<rparr>,
                  \<lparr>query = PStr (ustr ''q2''), results = example_results\<rparr>,
                  \<lparr>query = PStr (ustr ''q3''), results = example_results\<rparr>]"
  have g: "generate_content example_env p = Inr ?raw" for p
    by (simp add: example_env_def)
  obtain res where r: "snd (run example_env [2, 0, 1] (example_agent 5) (ustr ''Q'')) = Inr res"
    by (simp add: run_outcome g example_plan example_retrieve)
  from run_sources [OF r] obtain raw blocks where
    1: "generate_content example_env (search_prompt (ustr ''Q'')) = Inr raw" and
    2: "snd (retrieve example_env [2, 0, 1] (example_agent 5) (plan_queries raw)) = Inr blocks" and
    3: "sources res = {u. u \<noteq> [] \<and> (\<exists>b \<in> set blocks. \<exists>r \<in> set (results b). url r = u)}"
    by blast
  from 1 g have "raw = ?raw" by simp
  with 2 have "blocks = ?blocks"
    by (simp add: example_plan example_retrieve)
  with 3 have "sources res = {ustr ''https://x.test''}"
    by (auto simp: example_results_def ustr_def)
  with r show ?thesis by blast
qed

subsection \<open>Construction\<close>

text \<open>
  Claim C2. Constructing the agent raises the configuration error if and only if at
  least one of the two credentials is unset (\<open>None\<close> or empty) after the explicit
  parameter, and then the environment, have been tried; when both resolve to non-empty
  values the construction succeeds, with the resolved values. \<open>init\<close> has no loop: nothing
  is retried.
\<close>

theorem init_credentials:
  "(let g = (if gk = None \<or> gk = Some [] then getenv e (ustr ''GEMINI_API_KEY'') else gk);
        s = (if sk = None \<or> sk = Some [] then getenv e (ustr ''SERPAPI_API_KEY'') else sk)
    in ((\<exists>err. init e m n d gk sk = Inl err) \<longleftrightarrow>
          (g = None \<or> g = Some [] \<or> s = None \<or> s = Some [])) \<and>
       ((\<exists>err. init e m n d gk sk = Inl err) \<longrightarrow>
          init e m n d gk sk =
            Inl (RuntimeError ''GEMINI_API_KEY and SERPAPI_API_KEY must be set.'')) \<and>
       (g \<noteq> None \<and> g \<noteq> Some [] \<and> s \<noteq> None \<and> s \<noteq> Some [] \<longrightarrow>
          init e m n d gk sk =
            Inr \<lparr>model = m, topn = n, debug = d, gemini_key = g, serp_key = s\<rparr>))"
  by (auto simp: init_def py_or_def truthy_def Let_def split: option.splits)

theorem init_credentials_witness:
  "init example_env (ustr ''gemini-2.5-flash'') 10 False None (Some (ustr ''sk'')) =
     Inr \<lparr>model = ustr ''gemini-2.5-flash'', topn = 10, debug = False,
          gemini_key = Some (ustr ''gk''), serp_key = Some (ustr ''sk'')\<rparr> \<and>
   init example_env (ustr ''gemini-2.5-flash'') 10 False (Some (ustr ''gk'')) None =
     Inl (RuntimeError ''GEMINI_API_KEY and SERPAPI_API_KEY must be set.'') \<and>
   init example_env (ustr ''gemini-2.5-flash'') 10 False (Some (ustr ''gk'')) (Some []) =
     Inl (RuntimeError ''GEMINI_API_KEY and SERPAPI_API_KEY must be set.'')"
proof -
  have env: "getenv example_env (ustr ''GEMINI_API_KEY'') = Some (ustr ''gk'')"
    "getenv example_env (ustr ''SERPAPI_API_KEY'') = None"
    by (simp_all add: example_env_def ustr_def)
  have ne: "ustr ''gk'' \<noteq> []" "ustr ''sk'' \<noteq> []"
    by (simp_all add: ustr_def)
  show ?thesis
    using init_credentials [of None example_env "Some (ustr ''sk'')" "ustr ''gemini-2.5-flash''" 10 False]
      init_credentials [of "Some (ustr ''gk'')" example_env None "ustr ''gemini-2.5-flash''" 10 False]
      init_credentials [of "Some (ustr ''gk'')" example_env "Some []" "ustr ''gemini-2.5-flash''" 10 False]
    by (simp add: Let_def env ne)
qed

subsection \<open>Planning\<close>







subsection \<open>Searching\<close>

text \<open>
  Claim C5. For every query and every list of records that the provider returns, with a
  \<open>topn\<close> that is not negative, the block of the query holds exactly the first
  \<open>min(topn, number of records)\<close> records, in the provider's order, each turned into a
  result; with \<open>topn = 5\<close> and twenty records, the first five.
\<close>

theorem search_web_truncates:
  assumes "0 \<le> topn a"
    and "get_dict e q (serp_key a) (topn a) = Inr response"
  shows "snd (search_web e a q) =
           Inr \<lparr>query = q,
                results = map to_result
                  (take (min (nat (topn a)) (length (organic_results response)))
                     (organic_results response))\<rparr> \<and>
         length (map to_result
                  (take (min (nat (topn a)) (length (organic_results response)))
                     (organic_results response))) =
           min (nat (topn a)) (length (organic_results response))"
proof -
  have "slice_to rs (topn a) = take (min (nat (topn a)) (length rs)) rs"
    for rs :: "provider_record list"
    using assms(1) by (auto simp: slice_to_def Let_def min_def)
  then show ?thesis
    using search_web_result [OF assms(2)] by simp
qed

theorem search_web_truncates_witness:
  "length example_records = 20 \<and>
   snd (search_web example_env (example_agent 5) (PStr (ustr ''q''))) =
     Inr \<lparr>query = PStr (ustr ''q''), results = map to_result (take 5 example_records)\<rparr> \<and>
   length (map to_result (take 5 example_records)) = 5"
proof -
  have 1: "0 \<le> topn (example_agent 5)"
    by (simp add: example_agent_def)
  have 2: "get_dict example_env (PStr (ustr ''q'')) (serp_key (example_agent 5))
             (topn (example_agent 5)) = Inr (Some example_records)"
    by (simp add: example_env_def)
  have 3: "topn (example_agent 5) = 5"
    by (simp add: example_agent_def)
  show ?thesis
    using search_web_truncates [OF 1 2]
    by (simp add: 3 organic_results_def length_example_records)
qed

text \<open>
  Claim C7. For every result record of the provider: when the key \<open>title\<close>, \<open>snippet\<close> or
  \<open>link\<close> is absent, the field of the search result is \<open>"(untitled)"\<close>,
  \<open>"(no snippet)"\<close> or the empty string; when the key is present, its value is carried
  through unchanged.
\<close>

theorem to_result_defaults:
  "(r (ustr ''title'') = None \<longrightarrow> title (to_result r) = ustr ''(untitled)'') \<and>
   (r (ustr ''snippet'') = None \<longrightarrow> snippet (to_result r) = ustr ''(no snippet)'') \<and>
   (r (ustr ''link'') = None \<longrightarrow> url (to_result r) = []) \<and>
   (\<forall>v. r (ustr ''title'') = Some v \<longrightarrow> title (to_result r) = v) \<and>
   (\<forall>v. r (ustr ''snippet'') = Some v \<longrightarrow> snippet (to_result r) = v) \<and>
   (\<forall>v. r (ustr ''link'') = Some v \<longrightarrow> url (to_result r) = v)"
  by (simp add: to_result_def dict_get_def)

theorem to_result_defaults_witness:
  "to_result Map.empty =
     \<lparr>title = ustr ''(untitled)'', snippet = ustr ''(no snippet)'', url = []\<rparr> \<and>
   to_result [ustr ''title'' \<mapsto> ustr ''Paris'', ustr ''snippet'' \<mapsto> ustr ''The capital'',
              ustr ''link'' \<mapsto> ustr ''https://example.com/paris''] =
     \<lparr>title = ustr ''Paris'', snippet = ustr ''The capital'',
      url = ustr ''https://example.com/paris''\<rparr>"
proof -
  let ?r = "[ustr ''title'' \<mapsto> ustr ''Paris'', ustr ''snippet'' \<mapsto> ustr ''The capital'',
             ustr ''link'' \<mapsto> ustr ''https://example.com/paris'']"
  have absent: "Map.empty (ustr ''title'') = (None :: pystr option)"
    "Map.empty (ustr ''snippet'') = (None :: pystr option)"
    "Map.empty (ustr ''link'') = (None :: pystr option)"
    by simp_all
  have present: "?r (ustr ''title'') = Some (ustr ''Paris'')"
    "?r (ustr ''snippet'') = Some (ustr ''The capital'')"
    "?r (ustr ''link'') = Some (ustr ''https://example.com/paris'')"
    by (simp_all add: ustr_def)
  from absent to_result_defaults [of Map.empty]
  have 1: "title (to_result Map.empty) = ustr ''(untitled)''"
    "snippet (to_result Map.empty) = ustr ''(no snippet)''"
    "url (to_result Map.empty) = []"
    by blast+
  from present to_result_defaults [of ?r]
  have 2: "title (to_result ?r) = ustr ''Paris''"
    "snippet (to_result ?r) = ustr ''The capital''"
    "url (to_result ?r) = ustr ''https://example.com/paris''"
    by blast+
  from 1 2 show ?thesis
    by (metis (full_types) search_result.surjective old.unit.exhaust)
qed

text \<open>
  Claim C10. Construction takes any integer \<open>topn\<close> as it is, zero and negative values
  too; with \<open>topn = 0\<close> the results of every block are empty, and with \<open>topn < 0\<close> a block
  keeps all the provider's records but the last \<open>|topn|\<close>, not the first \<open>topn\<close>.
\<close>

theorem topn_unvalidated:
  "(gk \<noteq> None \<and> gk \<noteq> Some [] \<and> sk \<noteq> None \<and> sk \<noteq> Some [] \<longrightarrow>
      init e m n d gk sk =
        Inr \<lparr>model = m, topn = n, debug = d, gemini_key = gk, serp_key = sk\<rparr>) \<and>
   (topn a = 0 \<and> get_dict e q (serp_key a) (topn a) = Inr response \<longrightarrow>
      snd (search_web e a q) = Inr \<lparr>query = q, results = []\<rparr>) \<and>
   (topn a < 0 \<and> get_dict e q (serp_key a) (topn a) = Inr response \<longrightarrow>
      snd (search_web e a q) =
        Inr \<lparr>query = q,
             results = map to_result
               (take (length (organic_results response) - nat (- topn a))
                  (organic_results response))\<rparr>)"
proof -
  have 1: "gk \<noteq> None \<and> gk \<noteq> Some [] \<and> sk \<noteq> None \<and> sk \<noteq> Some [] \<longrightarrow>
      init e m n d gk sk =
        Inr \<lparr>model = m, topn = n, debug = d, gemini_key = gk, serp_key = sk\<rparr>"
    by (auto simp: init_def py_or_def truthy_def Let_def split: option.splits)
  have 2: "slice_to xs 0 = []" for xs :: "provider_record list"
    by (simp add: slice_to_def Let_def)
  have 3: "slice_to xs k = take (length xs - nat (- k)) xs" if "k < 0"
    for xs :: "provider_record list" and k
  proof -
    have "nat (if k + int (length xs) < 0 then 0 else k + int (length xs)) =
          length xs - nat (- k)"
      using that by auto
    with that show ?thesis by (simp add: slice_to_def Let_def)
  qed
  show ?thesis
    using 1 2 3 [of "topn a"] search_web_result [of e q a response]
    by auto
qed

theorem topn_unvalidated_witness:
  "init example_env (ustr ''gemini-2.5-flash'') (- 2) False (Some (ustr ''gk'')) (Some (ustr ''sk'')) =
     Inr (example_agent (- 2)) \<and>
   snd (search_web example_env (example_agent 0) (PStr (ustr ''q''))) =
     Inr \<lparr>query = PStr (ustr ''q''), results = []\<rparr> \<and>
   snd (search_web example_env (example_agent (- 2)) (PStr (ustr ''q''))) =
     Inr \<lparr>query = PStr (ustr ''q''), results = map to_result (take 18 example_records)\<rparr>"
proof -
  have ne: "Some (ustr ''gk'') \<noteq> Some []" "Some (ustr ''sk'') \<noteq> Some []"
    by (simp_all add: ustr_def)
  have g: "get_dict example_env (PStr (ustr ''q'')) (serp_key (example_agent k))
             (topn (example_agent k)) = Inr (Some example_records)" for k
    by (simp add: example_env_def)
  have t: "topn (example_agent k) = k" for k
    by (simp add: example_agent_def)
  from ne topn_unvalidated [of "Some (ustr ''gk'')" "Some (ustr ''sk'')" example_env
      "ustr ''gemini-2.5-flash''" "- 2" False]
  have a: "init example_env (ustr ''gemini-2.5-flash'') (- 2) False (Some (ustr ''gk''))
             (Some (ustr ''sk'')) = Inr (example_agent (- 2))"
    by (simp add: example_agent_def)
  from g [of 0] t [of 0]
    topn_unvalidated [of _ _ example_env _ _ _ "example_agent 0" "PStr (ustr ''q'')"
      "Some example_records"]
  have b: "snd (search_web example_env (example_agent 0) (PStr (ustr ''q''))) =
      Inr \<lparr>query = PStr (ustr ''q''), results = []\<rparr>"
    by simp
  from g [of "- 2"] t [of "- 2"]
    topn_unvalidated [of _ _ example_env _ _ _ "example_agent (- 2)" "PStr (ustr ''q'')"
      "Some example_records"]
  have c: "snd (search_web example_env (example_agent (- 2)) (PStr (ustr ''q''))) =
      Inr \<lparr>query = PStr (ustr ''q''), results = map to_result (take 18 example_records)\<rparr>"
    by (simp add: organic_results_def length_example_records)
  from a b c show ?thesis by blast
qed

subsection \<open>Retrieval\<close>

text \<open>
  Claim C6. For every list of planned queries, the retrieval that returns gives exactly
  one block per query, and the \<open>query\<close> fields of the blocks are the queries in the same
  order, whatever the order in which the pool's tasks finish; the outcome does not
  depend on that order, and when every search succeeds the retrieval returns.
\<close>

theorem retrieve_order:
  "(snd (retrieve e order a queries) = Inr blocks \<longrightarrow>
      length blocks = length queries \<and> map query blocks = queries) \<and>
   snd (retrieve e order a queries) = snd (retrieve e order' a queries) \<and>
   ((\<forall>q \<in> set queries. \<exists>response. get_dict e q (serp_key a) (topn a) = Inr response) \<longrightarrow>
      (\<exists>blocks. snd (retrieve e order a queries) = Inr blocks))"
proof (intro conjI impI)
  assume r: "snd (retrieve e order a queries) = Inr blocks"
  then have m: "map (\<lambda>q. snd (search_web e a q)) queries = map Inr blocks"
    by (simp add: retrieve_outcome first_error_Inr)
  then show "length blocks = length queries"
    by (metis length_map)
  show "map query blocks = queries"
  proof (rule nth_equalityI)
    show "length (map query blocks) = length queries"
      using \<open>length blocks = length queries\<close> by simp
  next
    fix i assume "i < length (map query blocks)"
    then have i: "i < length queries" "i < length blocks"
      using \<open>length blocks = length queries\<close> by simp_all
    from m i have "snd (search_web e a (queries ! i)) = Inr (blocks ! i)"
      by (metis nth_map)
    then have "query (blocks ! i) = queries ! i"
      by (rule search_web_query)
    with i show "map query blocks ! i = queries ! i" by simp
  qed
next
  show "snd (retrieve e order a queries) = snd (retrieve e order' a queries)"
    by (simp add: retrieve_outcome)
next
  assume ok: "\<forall>q \<in> set queries. \<exists>response. get_dict e q (serp_key a) (topn a) = Inr response"
  have "\<exists>blocks. first_error (map (\<lambda>q. snd (search_web e a q)) qs) = Inr blocks"
    if "set qs \<subseteq> set queries" for qs
    using that
  proof (induction qs)
    case Nil
    then show ?case by simp
  next
    case (Cons q qs)
    then obtain response where "get_dict e q (serp_key a) (topn a) = Inr response"
      using ok by auto
    with Cons show ?case
      by (auto simp: search_web_outcome)
  qed
  then show "\<exists>blocks. snd (retrieve e order a queries) = Inr blocks"
    by (simp add: retrieve_outcome)
qed

theorem retrieve_order_witness:
  "\<exists>blocks.
     snd (retrieve example_env [2, 0, 1] (example_agent 5)
            [PStr (ustr ''q1''), PStr (ustr ''q2''), PStr (ustr ''q3'')]) = Inr blocks \<and>
     length blocks = 3 \<and>
     map query blocks = [PStr (ustr ''q1''), PStr (ustr ''q2''), PStr (ustr ''q3'')]"
proof -
  let ?qs = "[PStr (ustr ''q1''), PStr (ustr ''q2''), PStr (ustr ''q3'')]"
  have ok: "\<forall>q \<in> set ?qs. \<exists>response.
      get_dict example_env q (serp_key (example_agent 5)) (topn (example_agent 5)) = Inr response"
    by (simp add: example_env_def)
  with retrieve_order [of example_env "[2, 0, 1]" "example_agent 5" ?qs]
  obtain blocks where b: "snd (retrieve example_env [2, 0, 1] (example_agent 5) ?qs) = Inr blocks"
    by blast
  with retrieve_order [of example_env "[2, 0, 1]" "example_agent 5" ?qs blocks]
  have "length blocks = length ?qs \<and> map query blocks = ?qs"
    by blast
  with b show ?thesis by auto
qed

subsection \<open>Rendering\<close>


subsection \<open>Debug output\<close>


end
